theory Spec2Isabelle
  imports Main "HOL-Library.Word" "HOL-Library.Sublist"
begin

unbundle bit_operations_syntax

section \<open>The bus driver as the host code sees it\<close>

text \<open>
  The host code of \<^verbatim>\<open>usb_host.cpp\<close> talks to libusb through a handful of calls. A
  pointer is a natural number and a nullable pointer an option (\<open>None\<close> is
  \<^verbatim>\<open>nullptr\<close>). Every call the code makes is appended to a trace, so that "no bus call
  was made" is a statement about the trace. Numbers are passed as libusb takes them:
  configuration and interface numbers as \<^verbatim>\<open>int\<close>, the endpoint of
  \<^verbatim>\<open>libusb_clear_halt\<close> as \<^verbatim>\<open>unsigned char\<close>, a byte. What libusb answers is not decided by this
  repository: it is a parameter, a function of the calls made so far and of the call.
\<close>

type_synonym libusb_device = nat
type_synonym libusb_device_handle = nat

datatype bus_call =
    libusb_open libusb_device
  | libusb_close libusb_device_handle
  | libusb_release_interface libusb_device_handle int
  | libusb_set_configuration libusb_device_handle int
  | libusb_claim_interface libusb_device_handle int
  | libusb_reset_device libusb_device_handle
  | libusb_clear_halt libusb_device_handle "8 word"

record BusDriver =
  bus_result :: "bus_call list \<Rightarrow> bus_call \<Rightarrow> int"
  bus_new_handle :: "bus_call list \<Rightarrow> libusb_device \<Rightarrow> libusb_device_handle"

text \<open>\<^verbatim>\<open>LIBUSB_SUCCESS\<close> is libusb's code 0 ("Zero is returned if there was no error").\<close>

definition LIBUSB_SUCCESS :: int where
  "LIBUSB_SUCCESS = 0"

definition bus_do :: "BusDriver \<Rightarrow> bus_call \<Rightarrow> bus_call list \<Rightarrow> int \<times> bus_call list" where
  "bus_do bus c tr = (bus_result bus tr c, tr @ [c])"

section \<open>UsbDeviceId\<close>

record UsbDeviceId =
  vendor :: "16 word"
  product :: "16 word"

text \<open>\<^verbatim>\<open>operator<\<close>: the pair as one 32-bit value, the vendor in the high half.\<close>

definition UsbDeviceId_key :: "UsbDeviceId \<Rightarrow> 32 word" where
  "UsbDeviceId_key i = push_bit 16 (ucast (vendor i)) OR ucast (product i)"

definition UsbDeviceId_less :: "UsbDeviceId \<Rightarrow> UsbDeviceId \<Rightarrow> bool" where
  "UsbDeviceId_less lhs rhs \<longleftrightarrow> UsbDeviceId_key lhs < UsbDeviceId_key rhs"

section \<open>UsbDevice\<close>

record UsbDevice =
  mId :: UsbDeviceId
  mLibUsbDeviceContext :: "libusb_device option"
  mLibUsbDeviceHandle :: "libusb_device_handle option"
  mLastLibUsbError :: int
  mInterfaceNumber :: int
  mIsValid :: bool

definition UsbDevice_makeShared :: "libusb_device option \<Rightarrow> UsbDeviceId \<Rightarrow> UsbDevice" where
  "UsbDevice_makeShared device ident =
     \<lparr>mId = ident, mLibUsbDeviceContext = device, mLibUsbDeviceHandle = None,
      mLastLibUsbError = 0, mInterfaceNumber = -1, mIsValid = True\<rparr>"

text \<open>
  An operation takes the device and the trace of bus calls and returns its result with
  both updated. The per-device mutex makes each operation atomic with respect to the
  others, so a sequence of calls is a sequence of these functions.
\<close>

type_synonym dev_state = "UsbDevice \<times> bus_call list"

definition UsbDevice_open ::
    "BusDriver \<Rightarrow> int \<Rightarrow> int \<Rightarrow> dev_state \<Rightarrow> bool \<times> dev_state" where
  "UsbDevice_open bus config_number interface_number s =
     (let (d, tr) = s;
          (d, tr) =
            (case (mLibUsbDeviceContext d, mLibUsbDeviceHandle d) of
               (Some ctx, None) \<Rightarrow>
                 (let (rc, tr') = bus_do bus (libusb_open ctx) tr;
                      d' = d\<lparr>mLibUsbDeviceHandle := Some (bus_new_handle bus tr ctx),
                             mLastLibUsbError := rc\<rparr>
                  in (if mLastLibUsbError d' \<noteq> LIBUSB_SUCCESS
                      then d'\<lparr>mLibUsbDeviceHandle := None\<rparr> else d', tr'))
             | _ \<Rightarrow> (d, tr));
          (d, tr) =
            (if config_number \<ge> 0 \<and> interface_number \<ge> 0 then
               (case mLibUsbDeviceHandle d of
                  Some h \<Rightarrow>
                    (let tr = (if mInterfaceNumber d \<ge> 0
                               then snd (bus_do bus (libusb_release_interface h (mInterfaceNumber d)) tr)
                               else tr);
                         (res, tr) = bus_do bus (libusb_set_configuration h config_number) tr;
                         (res, d, tr) =
                           (if res = LIBUSB_SUCCESS then
                              (let (res, tr) = bus_do bus (libusb_claim_interface h interface_number) tr
                               in (res,
                                   if res = LIBUSB_SUCCESS
                                   then d\<lparr>mInterfaceNumber := interface_number\<rparr> else d,
                                   tr))
                            else (res, d, tr))
                     in (d\<lparr>mLastLibUsbError := res\<rparr>, tr))
                | None \<Rightarrow> (d, tr))
             else (d, tr))
      in (False, d, tr))"

definition UsbDevice_close :: "BusDriver \<Rightarrow> dev_state \<Rightarrow> dev_state" where
  "UsbDevice_close bus s =
     (let (d, tr) = s in
        case mLibUsbDeviceHandle d of
          Some h \<Rightarrow>
            (let (d, tr) =
                   (if mInterfaceNumber d \<ge> 0
                    then (d\<lparr>mInterfaceNumber := -1\<rparr>,
                          snd (bus_do bus (libusb_release_interface h (mInterfaceNumber d)) tr))
                    else (d, tr))
             in (d, snd (bus_do bus (libusb_close h) tr)))
        | None \<Rightarrow> (d, tr))"

definition UsbDevice_resetPort :: "BusDriver \<Rightarrow> dev_state \<Rightarrow> bool \<times> dev_state" where
  "UsbDevice_resetPort bus s =
     (let (d, tr) = s in
        case mLibUsbDeviceHandle d of
          Some h \<Rightarrow>
            (let (res, tr) = bus_do bus (libusb_reset_device h) tr in
               if res \<noteq> LIBUSB_SUCCESS then
                 (let (d, tr) =
                        (if mInterfaceNumber d \<ge> 0
                         then (d\<lparr>mInterfaceNumber := -1\<rparr>,
                               snd (bus_do bus (libusb_release_interface h (mInterfaceNumber d)) tr))
                         else (d, tr));
                      tr = snd (bus_do bus (libusb_close h) tr)
                  in (False, d\<lparr>mIsValid := False\<rparr>, tr))
               else (True, d, tr))
        | None \<Rightarrow> (True, d, tr))"

text \<open>\<open>clearHalt\<close> takes the endpoint as \<^verbatim>\<open>int32_t\<close> and hands it to a parameter of type
  \<^verbatim>\<open>unsigned char\<close>: the call converts it modulo 256, which is \<open>word_of_int\<close>.\<close>

definition UsbDevice_clearHalt :: "BusDriver \<Rightarrow> int \<Rightarrow> dev_state \<Rightarrow> bool \<times> dev_state" where
  "UsbDevice_clearHalt bus endpoint_number s =
     (let (d, tr) = s in
        case mLibUsbDeviceHandle d of
          Some h \<Rightarrow>
            (let (res, tr) = bus_do bus (libusb_clear_halt h (word_of_int endpoint_number)) tr in
               if res \<noteq> LIBUSB_SUCCESS
               then (False, d\<lparr>mLastLibUsbError := res\<rparr>, tr)
               else (True, d, tr))
        | None \<Rightarrow> (True, d, tr))"

definition UsbDevice_isValid :: "UsbDevice \<Rightarrow> bool" where
  "UsbDevice_isValid d = mIsValid d"

definition UsbDevice_lastLibUsbError :: "UsbDevice \<Rightarrow> int" where
  "UsbDevice_lastLibUsbError d = mLastLibUsbError d"

text \<open>A caller's sequence of operations on one device, for statements about every
  later call.\<close>

datatype dev_op = Open int int | Close | ResetPort | ClearHalt int

fun apply_op :: "BusDriver \<Rightarrow> dev_op \<Rightarrow> dev_state \<Rightarrow> dev_state" where
  "apply_op bus (Open c i) s = snd (UsbDevice_open bus c i s)"
| "apply_op bus Close s = UsbDevice_close bus s"
| "apply_op bus ResetPort s = snd (UsbDevice_resetPort bus s)"
| "apply_op bus (ClearHalt e) s = snd (UsbDevice_clearHalt bus e s)"

fun run_ops :: "BusDriver \<Rightarrow> dev_op list \<Rightarrow> dev_state \<Rightarrow> dev_state" where
  "run_ops bus [] s = s"
| "run_ops bus (x # xs) s = run_ops bus xs (apply_op bus x s)"

section \<open>threading::Worker\<close>

text \<open>
  A job is a \<^verbatim>\<open>std::function<void()>\<close>: \<open>None\<close> is the empty function, which the thread
  skips (\<^verbatim>\<open>if (job)\<close>), and \<open>Some a\<close> a callable with payload \<open>a\<close>. Whether a call of
  it returns or throws is the callable's business, not Worker's: it is the parameter
  \<open>throws\<close> of the thread's step.

  The worker is shared by its callers and its own thread, so the model is a step
  function on the shared state, one step per atomic action, and a run is a schedule of
  such steps. The thread's position is \<open>pc\<close>:
  \<^item> \<open>NoThread\<close>: no thread (\<^verbatim>\<open>thread == nullptr\<close>);
  \<^item> \<open>Entry w\<close>: spawned, about to run the lambda's first statement, \<open>w\<close> the captured
    \<^verbatim>\<open>wait_to_start\<close>;
  \<^item> \<open>LoopHead\<close>: about to test \<^verbatim>\<open>while (!stop_request.load())\<close>;
  \<^item> \<open>Waiting\<close>: holding \<^verbatim>\<open>jobs_mutex\<close> in \<^verbatim>\<open>cond_var.wait\<close>; the wait is taken
    by its predicate: the thread goes on, with the mutex, in a step at which
    \<^verbatim>\<open>counter > 0 || stop_request\<close> holds, and stays where it is otherwise;
  \<^item> \<open>Batch\<close>: in the inner loop over \<^verbatim>\<open>jobs_cpy\<close>;
  \<^item> \<open>Returned\<close>: the lambda has returned, so \<^verbatim>\<open>join\<close> returns;
  \<^item> \<open>Terminated\<close>: an exception has left the lambda; the thread function catches
    nothing, so \<^verbatim>\<open>std::terminate\<close> has ended the process.
  \<open>thread_mutex\<close> records who holds the mutex across steps: \<open>start(true)\<close> while it
  waits for the thread, \<open>stop()\<close> from its request to the end of the join. \<open>executed\<close>
  is not a field of the class: it logs the payloads of the jobs called, in order.
\<close>

datatype thread_pc = NoThread | Entry bool | LoopHead | Waiting | Batch | Returned | Terminated

datatype mutex_owner = Unlocked | LockedByStart | LockedByStop

record 'a Worker =
  thread :: bool
  thread_mutex :: mutex_owner
  counter :: "32 word"
  stop_request :: bool
  jobs :: "'a option list"
  start_sync :: bool
  pc :: thread_pc
  jobs_cpy :: "'a option list"
  executed :: "'a list"

definition Worker_init :: "'a Worker" where
  "Worker_init =
     \<lparr>thread = False, thread_mutex = Unlocked, counter = 0, stop_request = False,
      jobs = [], start_sync = False, pc = NoThread, jobs_cpy = [], executed = []\<rparr>"

definition Worker_push :: "'a option \<Rightarrow> 'a Worker \<Rightarrow> 'a Worker" where
  "Worker_push job w = w\<lparr>jobs := jobs w @ [job], counter := counter w + 1\<rparr>"

text \<open>
  \<open>start\<close>, up to the point where it returns or blocks in \<^verbatim>\<open>start_sync.wait()\<close>. What
  it returns is fixed by then. With \<^verbatim>\<open>wait_to_start\<close> it keeps the mutex until
  \<open>Worker_start_return\<close>, the end of that wait.
\<close>

definition Worker_start :: "bool \<Rightarrow> 'a Worker \<Rightarrow> bool \<times> 'a Worker" where
  "Worker_start wait_to_start w =
     (if thread_mutex w = Unlocked then
        (if \<not> thread w then
           (False, w\<lparr>thread := True, pc := Entry wait_to_start,
                     thread_mutex := (if wait_to_start then LockedByStart else Unlocked)\<rparr>)
         else (False, w))
      else (False, w))"

definition Worker_start_return :: "'a Worker \<Rightarrow> 'a Worker" where
  "Worker_start_return w =
     (if thread_mutex w = LockedByStart \<and> start_sync w
      then w\<lparr>start_sync := False, thread_mutex := Unlocked\<rparr> else w)"

text \<open>One atomic action of the thread's lambda.\<close>

definition Worker_thread_step :: "('a \<Rightarrow> bool) \<Rightarrow> 'a Worker \<Rightarrow> 'a Worker" where
  "Worker_thread_step throws w =
     (case pc w of
        Entry wait_to_start \<Rightarrow>
          w\<lparr>start_sync := (if wait_to_start then True else start_sync w),
            jobs_cpy := [], pc := LoopHead\<rparr>
      | LoopHead \<Rightarrow>
          (if \<not> stop_request w then w\<lparr>pc := Waiting\<rparr>
           else w\<lparr>jobs_cpy := [], pc := Returned\<rparr>)
      | Waiting \<Rightarrow>
          (if counter w > 0 \<or> stop_request w
           then w\<lparr>jobs_cpy := jobs w, jobs := jobs_cpy w, counter := 0, pc := Batch\<rparr>
           else w)
      | Batch \<Rightarrow>
          (case jobs_cpy w of
             [] \<Rightarrow> w\<lparr>pc := LoopHead\<rparr>
           | job # rest \<Rightarrow>
               (case job of
                  None \<Rightarrow> w\<lparr>jobs_cpy := rest\<rparr>
                | Some a \<Rightarrow>
                    (if throws a then w\<lparr>executed := executed w @ [a], pc := Terminated\<rparr>
                     else w\<lparr>executed := executed w @ [a], jobs_cpy := rest\<rparr>)))
      | _ \<Rightarrow> w)"

text \<open>
  \<open>stop\<close> in its two atomic parts: the request (lock, set the flag, notify), which only
  proceeds when the mutex is free, and what follows the join, which only proceeds once
  the thread's lambda has returned.
\<close>

definition Worker_stop_request :: "'a Worker \<Rightarrow> 'a Worker" where
  "Worker_stop_request w =
     (if thread_mutex w = Unlocked \<and> thread w
      then w\<lparr>thread_mutex := LockedByStop, stop_request := True\<rparr> else w)"

definition Worker_stop_join :: "'a Worker \<Rightarrow> 'a Worker" where
  "Worker_stop_join w =
     (if thread_mutex w = LockedByStop \<and> pc w = Returned
      then w\<lparr>thread := False, pc := NoThread, counter := 0, jobs := [],
             stop_request := False, thread_mutex := Unlocked\<rparr>
      else w)"

datatype 'a event =
    EvPush "'a option"
  | EvStart bool
  | EvStartReturn
  | EvStopRequest
  | EvStopJoin
  | EvThread

text \<open>After \<^verbatim>\<open>std::terminate\<close> nothing runs any more.\<close>

definition step :: "('a \<Rightarrow> bool) \<Rightarrow> 'a event \<Rightarrow> 'a Worker \<Rightarrow> 'a Worker" where
  "step throws e w =
     (if pc w = Terminated then w
      else case e of
          EvPush job \<Rightarrow> Worker_push job w
        | EvStart wait_to_start \<Rightarrow> snd (Worker_start wait_to_start w)
        | EvStartReturn \<Rightarrow> Worker_start_return w
        | EvStopRequest \<Rightarrow> Worker_stop_request w
        | EvStopJoin \<Rightarrow> Worker_stop_join w
        | EvThread \<Rightarrow> Worker_thread_step throws w)"

fun run :: "('a \<Rightarrow> bool) \<Rightarrow> 'a event list \<Rightarrow> 'a Worker \<Rightarrow> 'a Worker" where
  "run throws [] w = w"
| "run throws (e # es) w = run throws es (step throws e w)"

text \<open>The jobs a schedule pushes, in order, and the payloads of the callable ones.\<close>

fun pushed :: "'a event list \<Rightarrow> 'a option list" where
  "pushed [] = []"
| "pushed (EvPush job # es) = job # pushed es"
| "pushed (e # es) = pushed es"

fun callables :: "'a option list \<Rightarrow> 'a list" where
  "callables [] = []"
| "callables (None # js) = callables js"
| "callables (Some a # js) = a # callables js"

fun push_or_thread :: "'a event \<Rightarrow> bool" where
  "push_or_thread (EvPush job) = True"
| "push_or_thread EvThread = True"
| "push_or_thread e = False"

section \<open>UsbHost: the registry\<close>

text \<open>
  \<^verbatim>\<open>std::map<UsbDeviceId, UsbDevice_sptr_t>\<close>: a list of entries kept in the order of
  \<^verbatim>\<open>operator<\<close>; two keys are the same key when neither is less than the other.
\<close>

fun std_map_find :: "(UsbDeviceId \<times> 'v) list \<Rightarrow> UsbDeviceId \<Rightarrow> 'v option" where
  "std_map_find [] k = None"
| "std_map_find ((k', v) # m) k =
     (if \<not> UsbDeviceId_less k' k \<and> \<not> UsbDeviceId_less k k' then Some v
      else std_map_find m k)"

fun std_map_emplace ::
    "(UsbDeviceId \<times> 'v) list \<Rightarrow> UsbDeviceId \<Rightarrow> 'v \<Rightarrow> (UsbDeviceId \<times> 'v) list" where
  "std_map_emplace [] k v = [(k, v)]"
| "std_map_emplace ((k', v') # m) k v =
     (if UsbDeviceId_less k k' then (k, v) # (k', v') # m
      else if UsbDeviceId_less k' k then (k', v') # std_map_emplace m k v
      else (k', v') # m)"

fun std_map_erase :: "(UsbDeviceId \<times> 'v) list \<Rightarrow> UsbDeviceId \<Rightarrow> (UsbDeviceId \<times> 'v) list" where
  "std_map_erase [] k = []"
| "std_map_erase ((k', v) # m) k =
     (if \<not> UsbDeviceId_less k' k \<and> \<not> UsbDeviceId_less k k' then m
      else (k', v) # std_map_erase m k)"

text \<open>
  Of the host only the members the registry functions use: the map, the worker and
  whether a plugged-in callback was given. The job pushed for an arrival is the callback
  bound to the new device: its payload is that device.
  \<^verbatim>\<open>libusb_get_device_descriptor\<close> is the bus's: a parameter giving, for a device, the
  return code and the descriptor's \<^verbatim>\<open>idVendor\<close> and \<^verbatim>\<open>idProduct\<close>.
\<close>

record UsbHost =
  mDevices :: "(UsbDeviceId \<times> UsbDevice) list"
  mWorker :: "UsbDevice Worker"
  mPluggedInCallback :: bool

type_synonym get_device_descriptor = "libusb_device \<Rightarrow> int \<times> 16 word \<times> 16 word"

definition createUsbDeviceId :: "get_device_descriptor \<Rightarrow> libusb_device \<Rightarrow> UsbDeviceId option" where
  "createUsbDeviceId libusb_get_device_descriptor device =
     (let (rc, idVendor, idProduct) = libusb_get_device_descriptor device in
        if rc = LIBUSB_SUCCESS then Some \<lparr>vendor = idVendor, product = idProduct\<rparr>
        else None)"

definition UsbHost_getDevice :: "UsbHost \<Rightarrow> 16 word \<Rightarrow> 16 word \<Rightarrow> UsbDevice option" where
  "UsbHost_getDevice host vendor_id product_id =
     std_map_find (mDevices host) \<lparr>vendor = vendor_id, product = product_id\<rparr>"

definition registerLibUsbDevice ::
    "get_device_descriptor \<Rightarrow> libusb_device \<Rightarrow> UsbHost \<Rightarrow> int \<times> UsbHost" where
  "registerLibUsbDevice libusb_get_device_descriptor device host =
     (case createUsbDeviceId libusb_get_device_descriptor device of
        Some ident \<Rightarrow>
          (case std_map_find (mDevices host) ident of
             None \<Rightarrow>
               (let device_obj = UsbDevice_makeShared (Some device) ident;
                    host = host\<lparr>mDevices := std_map_emplace (mDevices host) ident device_obj\<rparr>
                in (0, if mPluggedInCallback host
                       then host\<lparr>mWorker := Worker_push (Some device_obj) (mWorker host)\<rparr>
                       else host))
           | Some present \<Rightarrow> (0, host))
      | None \<Rightarrow> (0, host))"

definition unregisterLibUsbDevice ::
    "get_device_descriptor \<Rightarrow> libusb_device \<Rightarrow> UsbHost \<Rightarrow> int \<times> UsbHost" where
  "unregisterLibUsbDevice libusb_get_device_descriptor device host =
     (case createUsbDeviceId libusb_get_device_descriptor device of
        Some ident \<Rightarrow> (0, host\<lparr>mDevices := std_map_erase (mDevices host) ident\<rparr>)
      | None \<Rightarrow> (0, host))"

text \<open>A sequence of arrival events, as the hotplug callback delivers them.\<close>

fun arrivals :: "get_device_descriptor \<Rightarrow> libusb_device list \<Rightarrow> UsbHost \<Rightarrow> UsbHost" where
  "arrivals g [] host = host"
| "arrivals g (device # ds) host = arrivals g ds (snd (registerLibUsbDevice g device host))"

section \<open>Invariants of the worker\<close>

text \<open>A schedule of pushes and thread steps only is one in which nobody starts or stops
  the worker; \<open>throwing_push\<close> marks the pushes of a callable that throws.\<close>

fun throwing_push :: "('a \<Rightarrow> bool) \<Rightarrow> 'a event \<Rightarrow> bool" where
  "throwing_push throws (EvPush (Some a)) = throws a"
| "throwing_push throws e = False"

text \<open>What holds in every state a schedule reaches from \<open>Worker_init\<close>: the stop flag is set
  exactly while \<open>stop()\<close> holds the mutex, there is a thread object exactly while a thread
  position exists, and the thread's local queue is empty outside its inner loop.\<close>

definition reachable_inv :: "'a Worker \<Rightarrow> bool" where
  "reachable_inv w \<longleftrightarrow>
     (stop_request w \<longleftrightarrow> thread_mutex w = LockedByStop) \<and>
     (thread w \<longleftrightarrow> pc w \<noteq> NoThread) \<and>
     (pc w \<noteq> Batch \<and> pc w \<noteq> Terminated \<longrightarrow> jobs_cpy w = [])"

text \<open>Order: what has been called, followed by what is still queued, is a subsequence of
  what was pushed.\<close>

definition fifo_inv :: "'a option list \<Rightarrow> 'a Worker \<Rightarrow> bool" where
  "fifo_inv ps w \<longleftrightarrow>
     subseq (executed w @ (if pc w = Terminated then [] else callables (jobs_cpy w @ jobs w)))
       (callables ps)"

text \<open>A started worker that nobody stops and whose jobs do not throw: the counter counts
  the shared queue, and what has been called followed by what is queued is exactly what
  was pushed.\<close>

definition running_inv :: "('a \<Rightarrow> bool) \<Rightarrow> 'a option list \<Rightarrow> 'a Worker \<Rightarrow> bool" where
  "running_inv throws ps w \<longleftrightarrow>
     (pc w = LoopHead \<or> pc w = Waiting \<or> pc w = Batch \<or> (\<exists>b. pc w = Entry b)) \<and>
     \<not> stop_request w \<and>
     (pc w \<noteq> Batch \<longrightarrow> jobs_cpy w = []) \<and>
     counter w = of_nat (length (jobs w)) \<and>
     length (jobs_cpy w) + length (jobs w) \<le> length ps \<and>
     executed w @ callables (jobs_cpy w @ jobs w) = callables ps \<and>
     (\<forall>a. Some a \<in> set (jobs_cpy w @ jobs w) \<longrightarrow> \<not> throws a)"

text \<open>The number of thread steps after which every queued job has been called.\<close>

definition todo :: "'a Worker \<Rightarrow> nat" where
  "todo w =
     (case pc w of
        Entry b \<Rightarrow> (if jobs w = [] then 0 else length (jobs w) + 3)
      | LoopHead \<Rightarrow> (if jobs w = [] then 0 else length (jobs w) + 2)
      | Waiting \<Rightarrow> (if jobs w = [] then 0 else length (jobs w) + 1)
      | Batch \<Rightarrow> length (jobs_cpy w) + (if jobs w = [] then 0 else length (jobs w) + 3)
      | _ \<Rightarrow> 0)"

text \<open>The thread is past its last batch when stop has been requested and it is neither
  blocked in its wait nor in its inner loop: it is at the loop test, which will fail, or
  has left the loop. From then on only jobs pushed later (the set \<open>X\<close>) can be called.\<close>

definition past_last_batch :: "'a Worker \<Rightarrow> bool" where
  "past_last_batch w \<longleftrightarrow> stop_request w \<and> pc w \<noteq> Waiting \<and> pc w \<noteq> Batch"

definition later_only :: "'a list \<Rightarrow> 'a set \<Rightarrow> 'a Worker \<Rightarrow> bool" where
  "later_only earlier X w \<longleftrightarrow>
     reachable_inv w \<and>
     (\<exists>xs. executed w = earlier @ xs \<and> set xs \<subseteq> X) \<and>
     (past_last_batch w \<or> set (callables (jobs_cpy w @ jobs w)) \<subseteq> X)"

section \<open>Concrete buses, devices, hosts and workers\<close>

text \<open>A bus on which every call succeeds and every open yields handle 7; one on which
  only the port reset fails (with \<open>-4\<close>); one on which only setting the configuration
  fails (with \<open>-6\<close>). The device is the one of the spec's scenario.\<close>

definition bus_all_ok :: BusDriver where
  "bus_all_ok = \<lparr>bus_result = (\<lambda>tr c. 0), bus_new_handle = (\<lambda>tr ctx. 7)\<rparr>"

definition bus_reset_fails :: BusDriver where
  "bus_reset_fails =
     \<lparr>bus_result = (\<lambda>tr c. case c of libusb_reset_device h \<Rightarrow> -4 | _ \<Rightarrow> 0),
      bus_new_handle = (\<lambda>tr ctx. 7)\<rparr>"

definition bus_set_configuration_fails :: BusDriver where
  "bus_set_configuration_fails =
     \<lparr>bus_result = (\<lambda>tr c. case c of libusb_set_configuration h n \<Rightarrow> -6 | _ \<Rightarrow> 0),
      bus_new_handle = (\<lambda>tr ctx. 7)\<rparr>"

definition dev_1234_5678 :: UsbDevice where
  "dev_1234_5678 = UsbDevice_makeShared (Some 1) \<lparr>vendor = 0x1234, product = 0x5678\<rparr>"

definition dev_claimed :: UsbDevice where
  "dev_claimed = dev_1234_5678\<lparr>mLibUsbDeviceHandle := Some 7, mInterfaceNumber := 0\<rparr>"

text \<open>The same device after \<open>close()\<close>: the interface number is reset, the handle is not.\<close>

definition dev_closed :: UsbDevice where
  "dev_closed = dev_claimed\<lparr>mInterfaceNumber := -1\<rparr>"

text \<open>Three device contexts: 1 and 3 read as the identity of the spec's scenario, 2 as
  another one, and every other context has no readable descriptor. A host with a
  callback and an empty registry.\<close>

definition descriptors :: get_device_descriptor where
  "descriptors device =
     (if device = 1 \<or> device = 3 then (0, 0x1234, 0x5678)
      else if device = 2 then (0, 0x1234, 0x0001)
      else (-1, 0, 0))"

definition host_with_callback :: UsbHost where
  "host_with_callback = \<lparr>mDevices = [], mWorker = Worker_init, mPluggedInCallback = True\<rparr>"

text \<open>Job behaviours and schedules for the examples. Payloads are numbers. In
  \<open>sched_stop_while_waiting\<close> the thread is blocked in its wait when job 1 is pushed and
  stop is requested before it wakes; in \<open>sched_stop_at_loop_test\<close> the thread is at its
  loop test when job 1 is pushed and stop requested, and then leaves the loop.\<close>

definition never_throws :: "nat \<Rightarrow> bool" where
  "never_throws a = False"

definition job1_throws :: "nat \<Rightarrow> bool" where
  "job1_throws a \<longleftrightarrow> a = 1"

definition sched_stop_while_waiting :: "nat event list" where
  "sched_stop_while_waiting =
     [EvStart False, EvThread, EvThread, EvPush (Some 1), EvStopRequest]"

definition sched_stop_at_loop_test :: "nat event list" where
  "sched_stop_at_loop_test =
     [EvStart False, EvThread, EvPush (Some 1), EvStopRequest, EvThread]"

definition sched_restart :: "nat event list" where
  "sched_restart =
     [EvStopJoin, EvPush (Some 2), EvStart False, EvThread, EvThread, EvThread, EvThread]"

definition sched_throwing :: "nat event list" where
  "sched_throwing =
     [EvStart False, EvPush (Some 1), EvPush (Some 2),
      EvThread, EvThread, EvThread, EvThread, EvThread, EvThread, EvThread, EvThread]"

definition sched_three_jobs :: "nat event list" where
  "sched_three_jobs =
     [EvPush (Some 1), EvThread, EvPush None, EvPush (Some 2), EvThread, EvThread,
      EvPush (Some 3)]"

section \<open>Properties of UsbDevice\<close>

lemmas dev_defs =
  UsbDevice_open_def UsbDevice_close_def UsbDevice_resetPort_def UsbDevice_clearHalt_def
  bus_do_def LIBUSB_SUCCESS_def UsbDevice_makeShared_def UsbDevice_isValid_def
  UsbDevice_lastLibUsbError_def

lemmas example_defs =
  bus_all_ok_def bus_reset_fails_def bus_set_configuration_fails_def
  dev_1234_5678_def dev_claimed_def dev_closed_def

text \<open>The open, configured and claimed device of the examples is what \<open>open(1, 0)\<close>
  makes of the fresh device when every bus call succeeds.\<close>

lemma dev_claimed_reached:
  "snd (UsbDevice_open bus_all_ok 1 0 (dev_1234_5678, [])) =
     (dev_claimed,
      [libusb_open 1, libusb_set_configuration 7 1, libusb_claim_interface 7 0])"
  by (simp add: dev_defs example_defs)

lemma UsbDevice_open_result: "fst (UsbDevice_open bus c i s) = False"
  by (simp add: UsbDevice_open_def Let_def split: prod.splits option.splits)

text \<open>
  C1. \<open>open\<close> is documented to return true when the requested work succeeds. On the
  fresh device of the scenario, with every bus call succeeding, \<open>open(1, 0)\<close> opens the
  handle, sets configuration 1, claims interface 0 and records \<open>LIBUSB_SUCCESS\<close>, and
  still returns false: the only \<^verbatim>\<open>return\<close> of the function is \<^verbatim>\<open>return false\<close>.
\<close>

theorem UsbDevice_open_success_returns_false:
  "fst (UsbDevice_open bus_all_ok 1 0 (dev_1234_5678, [])) = False \<and>
   mLibUsbDeviceHandle (fst (snd (UsbDevice_open bus_all_ok 1 0 (dev_1234_5678, [])))) = Some 7 \<and>
   mInterfaceNumber (fst (snd (UsbDevice_open bus_all_ok 1 0 (dev_1234_5678, [])))) = 0 \<and>
   UsbDevice_lastLibUsbError (fst (snd (UsbDevice_open bus_all_ok 1 0 (dev_1234_5678, []))))
     = LIBUSB_SUCCESS"
  by (simp add: dev_defs example_defs)

text \<open>
  C2. After \<open>close()\<close> the handle should be null, a second \<open>close()\<close> should make no bus
  call, and \<open>open\<close> should be able to open the device again. \<open>close\<close> never assigns the
  handle: on the open, claimed device it releases interface 0 and calls \<open>libusb_close\<close>,
  and the handle is still 7. A second \<open>close()\<close> calls \<open>libusb_close\<close> on it again, and
  \<open>open(1, 0)\<close> makes no \<open>libusb_open\<close> call but configures the closed handle.
\<close>

theorem UsbDevice_close_keeps_handle:
  "UsbDevice_close bus_all_ok (dev_claimed, []) =
     (dev_claimed\<lparr>mInterfaceNumber := -1\<rparr>, [libusb_release_interface 7 0, libusb_close 7]) \<and>
   mLibUsbDeviceHandle (fst (UsbDevice_close bus_all_ok (dev_claimed, []))) = Some 7 \<and>
   UsbDevice_close bus_all_ok (UsbDevice_close bus_all_ok (dev_claimed, [])) =
     (dev_claimed\<lparr>mInterfaceNumber := -1\<rparr>,
      [libusb_release_interface 7 0, libusb_close 7, libusb_close 7]) \<and>
   UsbDevice_open bus_all_ok 1 0 (UsbDevice_close bus_all_ok (dev_claimed, [])) =
     (False, dev_claimed,
      [libusb_release_interface 7 0, libusb_close 7,
       libusb_set_configuration 7 1, libusb_claim_interface 7 0])"
  by (simp add: dev_defs example_defs)

text \<open>
  C6. When \<open>open(config, interface)\<close> fails to set the configuration or to claim the
  interface, the claimed-interface number should end up unset. On the device that holds
  handle 7 and interface 0, \<open>open(2, 1)\<close> releases interface 0 on the bus and then fails
  to set configuration 2: the handle stays open and the last error is the failing step's
  \<open>-6\<close>, but \<open>mInterfaceNumber\<close> still reads 0, the interface just released.
  \<open>close\<close> and \<open>resetPort\<close> assign \<open>-1\<close> after the same release; \<open>open\<close> does not.
\<close>

theorem UsbDevice_open_failure_keeps_stale_claim:
  "UsbDevice_open bus_set_configuration_fails 2 1 (dev_claimed, []) =
     (False, dev_claimed\<lparr>mLastLibUsbError := -6\<rparr>,
      [libusb_release_interface 7 0, libusb_set_configuration 7 2]) \<and>
   mLibUsbDeviceHandle (fst (snd (UsbDevice_open bus_set_configuration_fails 2 1 (dev_claimed, []))))
     = Some 7 \<and>
   mInterfaceNumber (fst (snd (UsbDevice_open bus_set_configuration_fails 2 1 (dev_claimed, []))))
     = 0"
  by (simp add: dev_defs example_defs)

text \<open>
  C7. A failing bus call should leave its code in the device's last-error code. On the
  open, claimed device a port reset that fails with \<open>-4\<close> makes \<open>resetPort\<close> return false,
  release the interface, close the handle and clear the validity flag, but the last-error
  code is still the 0 it was before: \<open>resetPort\<close> never stores \<open>res\<close>, which \<open>clearHalt\<close>
  and \<open>open\<close> do.
\<close>

theorem UsbDevice_resetPort_drops_error_code:
  "UsbDevice_resetPort bus_reset_fails (dev_claimed, []) =
     (False, dev_claimed\<lparr>mInterfaceNumber := -1, mIsValid := False\<rparr>,
      [libusb_reset_device 7, libusb_release_interface 7 0, libusb_close 7]) \<and>
   bus_result bus_reset_fails [] (libusb_reset_device 7) = -4 \<and>
   UsbDevice_lastLibUsbError (fst (snd (UsbDevice_resetPort bus_reset_fails (dev_claimed, []))))
     = 0"
  by (simp add: dev_defs example_defs)

text \<open>What the sibling operations do with a failing code, for comparison with C7.\<close>

lemma UsbDevice_clearHalt_records_error:
  "mLibUsbDeviceHandle d = Some h \<Longrightarrow>
   bus_result bus tr (libusb_clear_halt h (word_of_int e)) \<noteq> LIBUSB_SUCCESS \<Longrightarrow>
   fst (UsbDevice_clearHalt bus e (d, tr)) = False \<and>
   UsbDevice_lastLibUsbError (fst (snd (UsbDevice_clearHalt bus e (d, tr))))
     = bus_result bus tr (libusb_clear_halt h (word_of_int e))"
  by (simp add: UsbDevice_clearHalt_def bus_do_def UsbDevice_lastLibUsbError_def)

lemma UsbDevice_clearHalt_endpoint_byte:
  "UsbDevice_clearHalt bus_all_ok 385 (dev_claimed, []) =
     (True, dev_claimed, [libusb_clear_halt 7 129])"
  by (simp add: dev_defs example_defs)

lemma UsbDevice_open_records_open_error:
  "mLibUsbDeviceContext d = Some ctx \<Longrightarrow> mLibUsbDeviceHandle d = None \<Longrightarrow>
   bus_result bus tr (libusb_open ctx) \<noteq> LIBUSB_SUCCESS \<Longrightarrow>
   UsbDevice_open bus c i (d, tr) =
     (False, d\<lparr>mLastLibUsbError := bus_result bus tr (libusb_open ctx)\<rparr>, tr @ [libusb_open ctx])"
  by (simp add: UsbDevice_open_def bus_do_def)

text \<open>With a null handle pointer \<open>resetPort()\<close> and \<open>clearHalt(endpoint)\<close> skip their
  \<^verbatim>\<open>if\<close> block: they return true, and the device record and the trace of bus calls
  are the ones passed in. The fresh device is such a device.\<close>

lemma null_handle_resetPort_clearHalt_noop:
  "mLibUsbDeviceHandle (fst s) = None \<Longrightarrow>
   UsbDevice_resetPort bus s = (True, s) \<and> UsbDevice_clearHalt bus e s = (True, s)"
  by (cases s) (simp add: UsbDevice_resetPort_def UsbDevice_clearHalt_def)

lemma fresh_device_resetPort_clearHalt_noop:
  "UsbDevice_resetPort bus_reset_fails (dev_1234_5678, []) = (True, dev_1234_5678, []) \<and>
   UsbDevice_clearHalt bus_reset_fails 129 (dev_1234_5678, []) = (True, dev_1234_5678, [])"
proof -
  have "mLibUsbDeviceHandle (fst (dev_1234_5678, [])) = None"
    by (simp add: dev_1234_5678_def UsbDevice_makeShared_def)
  from null_handle_resetPort_clearHalt_noop [OF this, of bus_reset_fails 129]
  show ?thesis .
qed

lemma dev_closed_reached:
  "UsbDevice_close bus_all_ok (dev_claimed, []) =
     (dev_closed, [libusb_release_interface 7 0, libusb_close 7])"
  by (simp add: dev_defs example_defs)

text \<open>
  C10. On a device whose handle is not open, \<open>resetPort()\<close> and \<open>clearHalt(endpoint)\<close>
  should return true, change nothing and make no bus call. Both functions take the
  handle for open when the pointer is not null, and \<open>close()\<close> leaves the pointer as it
  was. On the device that was opened and closed again the handle is not open, yet
  \<open>resetPort()\<close> calls \<open>libusb_reset_device\<close> on handle 7, and when that call fails it
  returns false, calls \<open>libusb_close\<close> a second time and clears the validity flag;
  \<open>clearHalt(129)\<close> calls \<open>libusb_clear_halt\<close> on handle 7.
\<close>

theorem closed_device_resetPort_clearHalt_call_bus:
  "mLibUsbDeviceHandle dev_closed = Some 7 \<and>
   UsbDevice_resetPort bus_all_ok (dev_closed, []) =
     (True, dev_closed, [libusb_reset_device 7]) \<and>
   UsbDevice_resetPort bus_reset_fails (dev_closed, []) =
     (False, dev_closed\<lparr>mIsValid := False\<rparr>, [libusb_reset_device 7, libusb_close 7]) \<and>
   UsbDevice_clearHalt bus_all_ok 129 (dev_closed, []) =
     (True, dev_closed, [libusb_clear_halt 7 129])"
  by (simp add: dev_defs example_defs)

subsection \<open>The validity flag\<close>

lemma apply_op_mIsValid: "mIsValid (fst (apply_op bus x (d, tr))) \<longrightarrow> mIsValid d"
proof (cases x)
  case (Open c i)
  then show ?thesis
    by (simp add: UsbDevice_open_def bus_do_def Let_def split_def split: option.splits)
next
  case Close
  then show ?thesis
    by (simp add: UsbDevice_close_def bus_do_def Let_def split_def split: option.splits)
next
  case ResetPort
  then show ?thesis
    by (simp add: UsbDevice_resetPort_def bus_do_def Let_def split_def split: option.splits)
next
  case (ClearHalt e)
  then show ?thesis
    by (simp add: UsbDevice_clearHalt_def bus_do_def Let_def split_def split: option.splits)
qed

lemma apply_op_invalid: "\<not> mIsValid (fst s) \<Longrightarrow> \<not> mIsValid (fst (apply_op bus x s))"
  using apply_op_mIsValid [of bus x "fst s" "snd s"] by simp

lemma run_ops_invalid: "\<not> mIsValid (fst s) \<Longrightarrow> \<not> mIsValid (fst (run_ops bus xs s))"
  by (induction xs arbitrary: s) (simp_all add: apply_op_invalid)

lemma resetPort_failure_invalidates:
  "fst (UsbDevice_resetPort bus s) = False \<Longrightarrow>
   \<not> mIsValid (fst (snd (UsbDevice_resetPort bus s)))"
  by (cases s)
     (simp add: UsbDevice_resetPort_def Let_def split: prod.splits option.splits if_splits)

text \<open>
  C4, as the spec states it: after a failed \<open>resetPort()\<close> every later \<open>open\<close>, \<open>close\<close>
  and \<open>clearHalt\<close> fails fast without a bus call. No operation reads the validity flag.
  After the failed reset of the open, claimed device \<open>isValid()\<close> is false, and
  \<open>clearHalt(129)\<close> still calls \<open>libusb_clear_halt\<close> on handle 7 and returns true.
\<close>

theorem clearHalt_after_failed_reset_calls_bus:
  "fst (UsbDevice_resetPort bus_reset_fails (dev_claimed, [])) = False \<and>
   \<not> UsbDevice_isValid (fst (snd (UsbDevice_resetPort bus_reset_fails (dev_claimed, [])))) \<and>
   UsbDevice_clearHalt bus_reset_fails 129
       (snd (UsbDevice_resetPort bus_reset_fails (dev_claimed, []))) =
     (True, dev_claimed\<lparr>mInterfaceNumber := -1, mIsValid := False\<rparr>,
      [libusb_reset_device 7, libusb_release_interface 7 0, libusb_close 7,
       libusb_clear_halt 7 129])"
  by (simp add: dev_defs example_defs)

text \<open>
  C4, amended: once \<open>resetPort()\<close> has failed, \<open>isValid()\<close> returns false, and it still
  returns false after any further sequence of \<open>open\<close>, \<open>close\<close>, \<open>resetPort\<close> and
  \<open>clearHalt\<close> calls, whatever the bus answers to them.
\<close>

theorem isValid_false_after_failed_reset:
  "fst (UsbDevice_resetPort bus s) = False \<Longrightarrow>
   \<not> UsbDevice_isValid (fst (run_ops bus' xs (snd (UsbDevice_resetPort bus s))))"
  unfolding UsbDevice_isValid_def
  by (rule run_ops_invalid) (rule resetPort_failure_invalidates)

theorem isValid_false_after_failed_reset_witness:
  "fst (UsbDevice_resetPort bus_reset_fails (dev_claimed, [])) = False \<and>
   \<not> UsbDevice_isValid
       (fst (run_ops bus_all_ok [Open 1 0, ClearHalt 129, Close, ResetPort]
               (snd (UsbDevice_resetPort bus_reset_fails (dev_claimed, [])))))"
proof -
  have failed: "fst (UsbDevice_resetPort bus_reset_fails (dev_claimed, [])) = False"
    by (simp add: dev_defs example_defs)
  from isValid_false_after_failed_reset
         [OF failed, of bus_all_ok "[Open 1 0, ClearHalt 129, Close, ResetPort]"] failed
  show ?thesis by blast
qed

section \<open>Properties of the registry\<close>

text \<open>The comparison of \<^verbatim>\<open>operator<\<close> identifies exactly the equal identities: the
  32-bit key determines vendor and product.\<close>

lemma UsbDeviceId_key_product: "ucast (UsbDeviceId_key a) = product a"
  unfolding UsbDeviceId_key_def
  by (rule bit_word_eqI) (auto simp: bit_simps dest: bit_imp_le_length)

lemma UsbDeviceId_key_vendor: "ucast (drop_bit 16 (UsbDeviceId_key a)) = vendor a"
  unfolding UsbDeviceId_key_def
  by (rule bit_word_eqI) (auto simp: bit_simps dest: bit_imp_le_length)

lemma UsbDeviceId_key_inj: "UsbDeviceId_key a = UsbDeviceId_key b \<longleftrightarrow> a = b"
proof
  assume eq: "UsbDeviceId_key a = UsbDeviceId_key b"
  from UsbDeviceId_key_product [of a] UsbDeviceId_key_product [of b] eq have "product a = product b" by simp
  moreover from UsbDeviceId_key_vendor [of a] UsbDeviceId_key_vendor [of b] eq have "vendor a = vendor b" by simp
  ultimately show "a = b" by simp
qed simp

lemma UsbDeviceId_equiv: "\<not> UsbDeviceId_less a b \<and> \<not> UsbDeviceId_less b a \<longleftrightarrow> a = b"
  unfolding UsbDeviceId_less_def using UsbDeviceId_key_inj [of a b] by auto

lemma UsbDeviceId_less_irrefl: "\<not> UsbDeviceId_less k k"
  by (simp add: UsbDeviceId_less_def)

lemma std_map_find_None: "std_map_find m k = None \<longleftrightarrow> k \<notin> fst ` set m"
proof (induction m)
  case Nil
  then show ?case by simp
next
  case (Cons e m)
  obtain k0 v0 where e: "e = (k0, v0)" by (cases e)
  show ?case using Cons.IH UsbDeviceId_equiv [of k0 k] by (auto simp: e)
qed

lemma std_map_find_emplace:
  "std_map_find m k = None \<Longrightarrow>
   std_map_find (std_map_emplace m k v) k' = (if k' = k then Some v else std_map_find m k')"
proof (induction m)
  case Nil
  then show ?case using UsbDeviceId_equiv [of k k'] by auto
next
  case (Cons e m)
  obtain k0 v0 where e: "e = (k0, v0)" by (cases e)
  from Cons.prems e have ne: "k0 \<noteq> k" and none: "std_map_find m k = None"
    using UsbDeviceId_equiv [of k0 k] by (auto split: if_splits)
  show ?case
  proof (cases "UsbDeviceId_less k k0")
    case True
    then show ?thesis using UsbDeviceId_equiv [of k k'] by (simp add: e)
  next
    case False
    with ne have "UsbDeviceId_less k0 k" using UsbDeviceId_equiv [of k0 k] by blast
    with False show ?thesis
      using Cons.IH [OF none] UsbDeviceId_equiv [of k0 k'] ne by (auto simp: e)
  qed
qed

lemma set_std_map_emplace:
  "std_map_find m k = None \<Longrightarrow> fst ` set (std_map_emplace m k v) = insert k (fst ` set m)"
proof (induction m)
  case Nil
  then show ?case by simp
next
  case (Cons e m)
  obtain k0 v0 where e: "e = (k0, v0)" by (cases e)
  from Cons.prems e have ne: "k0 \<noteq> k" and none: "std_map_find m k = None"
    using UsbDeviceId_equiv [of k0 k] by (auto split: if_splits)
  from ne have "UsbDeviceId_less k k0 \<or> UsbDeviceId_less k0 k"
    using UsbDeviceId_equiv [of k0 k] by blast
  then show ?case using Cons.IH [OF none] by (auto simp: e)
qed

lemma distinct_std_map_emplace:
  "std_map_find m k = None \<Longrightarrow> distinct (map fst m) \<Longrightarrow>
   distinct (map fst (std_map_emplace m k v))"
proof (induction m)
  case Nil
  then show ?case by simp
next
  case (Cons e m)
  obtain k0 v0 where e: "e = (k0, v0)" by (cases e)
  from Cons.prems e have ne: "k0 \<noteq> k" and none: "std_map_find m k = None"
    using UsbDeviceId_equiv [of k0 k] by (auto split: if_splits)
  from none have notin: "k \<notin> fst ` set m" by (simp add: std_map_find_None)
  from Cons.prems e have dm: "distinct (map fst m)" and k0: "k0 \<notin> fst ` set m" by auto
  show ?case
    using Cons.IH [OF none dm] set_std_map_emplace [OF none, of v] ne notin k0 dm
    by (auto simp: e)
qed

lemma registerLibUsbDevice_find:
  "std_map_find (mDevices (snd (registerLibUsbDevice g d h))) i =
     (case std_map_find (mDevices h) i of
        Some dev \<Rightarrow> Some dev
      | None \<Rightarrow> if createUsbDeviceId g d = Some i
                then Some (UsbDevice_makeShared (Some d) i) else None)"
  by (auto simp: registerLibUsbDevice_def Let_def std_map_find_emplace split: option.splits)

lemma arrivals_find:
  "std_map_find (mDevices (arrivals g ds h)) i =
     (case std_map_find (mDevices h) i of
        Some dev \<Rightarrow> Some dev
      | None \<Rightarrow> map_option (\<lambda>d. UsbDevice_makeShared (Some d) i)
                 (find (\<lambda>d. createUsbDeviceId g d = Some i) ds))"
proof (induction ds arbitrary: h)
  case Nil
  then show ?case by (simp split: option.splits)
next
  case (Cons d ds)
  show ?case
    by (simp add: Cons.IH registerLibUsbDevice_find split: option.splits)
qed

lemma registerLibUsbDevice_distinct:
  "distinct (map fst (mDevices h)) \<Longrightarrow>
   distinct (map fst (mDevices (snd (registerLibUsbDevice g d h))))"
  by (auto simp: registerLibUsbDevice_def Let_def distinct_std_map_emplace split: option.splits)

lemma arrivals_distinct:
  "distinct (map fst (mDevices h)) \<Longrightarrow> distinct (map fst (mDevices (arrivals g ds h)))"
  by (induction ds arbitrary: h) (simp_all add: registerLibUsbDevice_distinct)

lemma registerLibUsbDevice_present:
  "createUsbDeviceId g d = Some i \<Longrightarrow> std_map_find (mDevices h) i = Some dev \<Longrightarrow>
   registerLibUsbDevice g d h = (0, h)"
  by (simp add: registerLibUsbDevice_def)

text \<open>
  C8. After any sequence of arrival events on an empty registry, looking an identity up
  gives the device constructed at the first arrival that read as this identity (and
  nothing when no arrival did), so the registry holds exactly the identities that arrived,
  each once; and an arrival whose identity is already present, on any host, returns
  the host as it was, the worker's queue included: nothing is inserted or enqueued.
\<close>

theorem arrivals_keep_first_arrival:
  assumes "mDevices host = []"
  shows "std_map_find (mDevices (arrivals g ds host)) i =
           map_option (\<lambda>d. UsbDevice_makeShared (Some d) i)
             (find (\<lambda>d. createUsbDeviceId g d = Some i) ds) \<and>
         fst ` set (mDevices (arrivals g ds host)) =
           {i. \<exists>d \<in> set ds. createUsbDeviceId g d = Some i} \<and>
         distinct (map fst (mDevices (arrivals g ds host))) \<and>
         (createUsbDeviceId g d = Some i \<and> std_map_find (mDevices h) i \<noteq> None \<longrightarrow>
            registerLibUsbDevice g d h = (0, h))"
proof -
  have lookup: "std_map_find (mDevices (arrivals g ds host)) j =
      map_option (\<lambda>d. UsbDevice_makeShared (Some d) j)
        (find (\<lambda>d. createUsbDeviceId g d = Some j) ds)" for j
    using assms by (simp add: arrivals_find)
  have "j \<in> fst ` set (mDevices (arrivals g ds host)) \<longleftrightarrow>
      (\<exists>d \<in> set ds. createUsbDeviceId g d = Some j)" for j
    using lookup [of j] std_map_find_None [of "mDevices (arrivals g ds host)" j]
    by (auto simp: find_None_iff)
  then have keys: "fst ` set (mDevices (arrivals g ds host)) =
      {i. \<exists>d \<in> set ds. createUsbDeviceId g d = Some i}"
    by blast
  have once: "distinct (map fst (mDevices (arrivals g ds host)))"
    using assms by (simp add: arrivals_distinct)
  have again: "createUsbDeviceId g d = Some i \<and> std_map_find (mDevices h) i \<noteq> None \<longrightarrow>
      registerLibUsbDevice g d h = (0, h)"
    by (auto simp: registerLibUsbDevice_present)
  from lookup [of i] keys once again show ?thesis by blast
qed

theorem arrivals_keep_first_arrival_witness:
  "mDevices host_with_callback = [] \<and>
   createUsbDeviceId descriptors 3 = Some \<lparr>vendor = 0x1234, product = 0x5678\<rparr> \<and>
   std_map_find (mDevices (arrivals descriptors [1, 2, 3] host_with_callback))
     \<lparr>vendor = 0x1234, product = 0x5678\<rparr> = Some dev_1234_5678 \<and>
   distinct (map fst (mDevices (arrivals descriptors [1, 2, 3] host_with_callback))) \<and>
   registerLibUsbDevice descriptors 3 (arrivals descriptors [1, 2] host_with_callback) =
     (0, arrivals descriptors [1, 2] host_with_callback)"
proof -
  let ?i = "\<lparr>vendor = 0x1234, product = 0x5678\<rparr>"
  have empty: "mDevices host_with_callback = []"
    by (simp add: host_with_callback_def)
  have id3: "createUsbDeviceId descriptors 3 = Some ?i"
    by (simp add: createUsbDeviceId_def descriptors_def LIBUSB_SUCCESS_def)
  have id1: "createUsbDeviceId descriptors 1 = Some ?i"
    by (simp add: createUsbDeviceId_def descriptors_def LIBUSB_SUCCESS_def)
  have first12: "find (\<lambda>d. createUsbDeviceId descriptors d = Some ?i) [1, 2] = Some 1"
    using id1 by simp
  have first123: "find (\<lambda>d. createUsbDeviceId descriptors d = Some ?i) [1, 2, 3] = Some 1"
    using id1 by simp
  have present: "std_map_find (mDevices (arrivals descriptors [1, 2] host_with_callback)) ?i
      \<noteq> None"
    using arrivals_keep_first_arrival [OF empty, of descriptors "[1, 2]" ?i] first12
    by (simp del: arrivals.simps)
  note all = arrivals_keep_first_arrival
      [OF empty, of descriptors "[1, 2, 3]" ?i 3 "arrivals descriptors [1, 2] host_with_callback"]
  from all first123
  have lookup: "std_map_find (mDevices (arrivals descriptors [1, 2, 3] host_with_callback)) ?i
      = Some dev_1234_5678"
    by (simp del: arrivals.simps add: dev_1234_5678_def)
  from all have once:
    "distinct (map fst (mDevices (arrivals descriptors [1, 2, 3] host_with_callback)))"
    by blast
  from all id3 present
  have again: "registerLibUsbDevice descriptors 3 (arrivals descriptors [1, 2] host_with_callback)
      = (0, arrivals descriptors [1, 2] host_with_callback)"
    by blast
  from empty id3 lookup once again show ?thesis by blast
qed

section \<open>Properties of the Worker\<close>

lemmas worker_defs =
  Worker_push_def Worker_start_def Worker_start_return_def Worker_thread_step_def
  Worker_stop_request_def Worker_stop_join_def

text \<open>Schedules compose, and the pushed jobs of a schedule are those of its parts.\<close>

lemma run_append: "run throws (es @ es') w = run throws es' (run throws es w)"
  by (induction es arbitrary: w) simp_all

lemma pushed_append: "pushed (es @ es') = pushed es @ pushed es'"
  by (induction es rule: pushed.induct) simp_all

lemma callables_append: "callables (xs @ ys) = callables xs @ callables ys"
  by (induction xs rule: callables.induct) simp_all

lemma callables_set: "a \<in> set (callables js) \<longleftrightarrow> Some a \<in> set js"
  by (induction js rule: callables.induct) auto

subsection \<open>Reachable states\<close>

lemma reachable_inv_init: "reachable_inv Worker_init"
  by (simp add: reachable_inv_def Worker_init_def)

lemma reachable_inv_step: "reachable_inv w \<Longrightarrow> reachable_inv (step throws e w)"
  by (cases e; cases "pc w")
     (auto simp: reachable_inv_def step_def worker_defs split: list.splits option.splits)

lemma reachable_inv_run: "reachable_inv w \<Longrightarrow> reachable_inv (run throws es w)"
  by (induction es arbitrary: w) (simp_all add: reachable_inv_step)

subsection \<open>Order is kept in every schedule\<close>

lemma subseq_snoc: "subseq xs ys \<Longrightarrow> subseq (xs @ [a]) (ys @ [a])"
  by (rule list_emb_append_mono) simp_all

lemma subseq_front: "subseq (xs @ ys) zs \<Longrightarrow> subseq xs zs"
  by (metis list_emb_prefix subseq_order.order_refl subseq_order.trans)

lemma fifo_inv_push:
  assumes "fifo_inv ps w" "pc w \<noteq> Terminated"
  shows "fifo_inv (ps @ [job]) (Worker_push job w)"
proof (cases job)
  case None
  with assms show ?thesis
    by (simp add: fifo_inv_def Worker_push_def callables_append)
next
  case (Some a)
  from assms have "subseq ((executed w @ callables (jobs_cpy w @ jobs w)) @ [a]) (callables ps @ [a])"
    unfolding fifo_inv_def by (simp only: subseq_snoc if_False)
  with Some \<open>pc w \<noteq> Terminated\<close> show ?thesis
    by (simp add: fifo_inv_def Worker_push_def callables_append)
qed

lemma fifo_inv_thread:
  assumes "fifo_inv ps w" "reachable_inv w"
  shows "fifo_inv ps (Worker_thread_step throws w)"
proof (cases "pc w")
  case Batch
  show ?thesis
  proof (cases "jobs_cpy w")
    case Nil
    with Batch assms show ?thesis by (simp add: fifo_inv_def Worker_thread_step_def)
  next
    case (Cons job rest)
    show ?thesis
    proof (cases job)
      case None
      with Batch Cons assms show ?thesis by (simp add: fifo_inv_def Worker_thread_step_def)
    next
      case (Some a)
      from assms(1) Batch Cons Some
      have all: "subseq ((executed w @ [a]) @ callables (rest @ jobs w)) (callables ps)"
        by (simp add: fifo_inv_def)
      then have "subseq (executed w @ [a]) (callables ps)" by (rule subseq_front)
      with all Batch Cons Some show ?thesis
        by (simp add: fifo_inv_def Worker_thread_step_def)
    qed
  qed
next
  case Waiting
  with assms show ?thesis
    by (auto simp: fifo_inv_def Worker_thread_step_def reachable_inv_def)
next
  case LoopHead
  with assms show ?thesis
    by (auto simp: fifo_inv_def Worker_thread_step_def reachable_inv_def)
qed (use assms in \<open>auto simp: fifo_inv_def Worker_thread_step_def reachable_inv_def\<close>)

lemma fifo_inv_step:
  assumes "fifo_inv ps w" "reachable_inv w"
  shows "fifo_inv (ps @ pushed [e]) (step throws e w)"
proof (cases "pc w = Terminated")
  case True
  with assms(1) show ?thesis
    by (auto simp: fifo_inv_def step_def callables_append intro: list_emb_prefix)
next
  case False
  show ?thesis
  proof (cases e)
    case (EvPush job)
    with False assms show ?thesis by (simp add: step_def fifo_inv_push)
  next
    case EvThread
    with False assms show ?thesis by (simp add: step_def fifo_inv_thread)
  next
    case EvStopJoin
    from assms(1) False have "subseq (executed w) (callables ps)"
      unfolding fifo_inv_def by (simp only: if_False) (rule subseq_front)
    with EvStopJoin False assms(1) show ?thesis
      by (simp add: step_def fifo_inv_def Worker_stop_join_def)
         (use assms(2) in \<open>auto simp: reachable_inv_def\<close>)
  next
    case (EvStart wt)
    with False assms show ?thesis
      by (auto simp: step_def fifo_inv_def Worker_start_def)
  next
    case EvStartReturn
    with False assms show ?thesis
      by (auto simp: step_def fifo_inv_def Worker_start_return_def)
  next
    case EvStopRequest
    with False assms show ?thesis
      by (auto simp: step_def fifo_inv_def Worker_stop_request_def)
  qed
qed

lemma fifo_inv_run:
  "fifo_inv ps w \<Longrightarrow> reachable_inv w \<Longrightarrow> fifo_inv (ps @ pushed es) (run throws es w)"
proof (induction es arbitrary: ps w)
  case Nil
  then show ?case by simp
next
  case (Cons e es)
  from Cons.prems have "fifo_inv (ps @ pushed [e]) (step throws e w)"
    by (rule fifo_inv_step)
  moreover from Cons.prems have "reachable_inv (step throws e w)"
    by (simp add: reachable_inv_step)
  ultimately have "fifo_inv ((ps @ pushed [e]) @ pushed es) (run throws es (step throws e w))"
    by (rule Cons.IH)
  moreover have "pushed (e # es) = pushed [e] @ pushed es"
    using pushed_append [of "[e]" es] by simp
  ultimately show ?case by simp
qed

lemma executed_subseq_pushed:
  "subseq (executed (run throws es Worker_init)) (callables (pushed es))"
proof -
  have "fifo_inv [] (Worker_init :: 'a Worker)"
    by (simp add: fifo_inv_def Worker_init_def)
  then have "fifo_inv ([] @ pushed es) (run throws es Worker_init)"
    using reachable_inv_init by (rule fifo_inv_run)
  then have "subseq (executed (run throws es Worker_init) @
      (if pc (run throws es Worker_init) = Terminated then []
       else callables (jobs_cpy (run throws es Worker_init) @ jobs (run throws es Worker_init))))
      (callables (pushed es))"
    by (simp add: fifo_inv_def)
  then show ?thesis by (rule subseq_front)
qed

subsection \<open>A running worker calls every job pushed\<close>

lemma running_inv_start: "running_inv throws [] (snd (Worker_start wt Worker_init))"
  by (simp add: running_inv_def Worker_start_def Worker_init_def)

lemma running_inv_push:
  assumes "running_inv throws ps w" "\<forall>a. job = Some a \<longrightarrow> \<not> throws a"
  shows "running_inv throws (ps @ [job]) (step throws (EvPush job) w)"
proof (cases job)
  case None
  with assms show ?thesis
    by (auto simp: running_inv_def step_def Worker_push_def callables_append)
next
  case (Some a)
  with assms show ?thesis
    by (auto simp: running_inv_def step_def Worker_push_def callables_append)
qed

lemma running_inv_thread:
  assumes "running_inv throws ps w"
  shows "running_inv throws ps (step throws EvThread w)"
proof (cases "pc w")
  case Batch
  show ?thesis
  proof (cases "jobs_cpy w")
    case Nil
    with Batch assms show ?thesis
      by (simp add: running_inv_def step_def Worker_thread_step_def)
  next
    case (Cons job rest)
    with Batch assms show ?thesis
      by (cases job) (auto simp: running_inv_def step_def Worker_thread_step_def)
  qed
qed (use assms in \<open>auto simp: running_inv_def step_def Worker_thread_step_def\<close>)

lemma running_inv_run:
  assumes "running_inv throws ps w" "list_all push_or_thread es"
    "\<not> list_ex (throwing_push throws) es"
  shows "running_inv throws (ps @ pushed es) (run throws es w)"
  using assms
proof (induction es arbitrary: ps w)
  case Nil
  then show ?case by simp
next
  case (Cons e es)
  from Cons.prems(2) have e: "push_or_thread e" and es: "list_all push_or_thread es" by simp_all
  from Cons.prems(3) have ne: "\<not> throwing_push throws e"
    and nes: "\<not> list_ex (throwing_push throws) es" by simp_all
  show ?case
  proof (cases e)
    case (EvPush job)
    from ne EvPush have "\<forall>a. job = Some a \<longrightarrow> \<not> throws a" by auto
    with Cons.prems(1) have "running_inv throws (ps @ [job]) (step throws (EvPush job) w)"
      by (rule running_inv_push)
    from Cons.IH [OF this es nes] EvPush show ?thesis by simp
  next
    case EvThread
    from Cons.prems(1) have "running_inv throws ps (step throws EvThread w)"
      by (rule running_inv_thread)
    from Cons.IH [OF this es nes] EvThread show ?thesis by simp
  qed (use e in simp_all)
qed

text \<open>With fewer than \<open>2^32\<close> jobs in the queue the 32-bit counter has not wrapped
  around to 0, so a non-empty queue wakes the thread.\<close>

lemma counter_positive:
  assumes "counter w = of_nat (length (jobs w))" "jobs w \<noteq> []" "length (jobs w) < 2 ^ 32"
  shows "0 < counter w"
proof -
  from assms(2) have "0 < length (jobs w)" by simp
  from of_nat_neq_0 [where 'a = 32, OF this] assms(3)
  have "(of_nat (length (jobs w)) :: 32 word) \<noteq> 0" by simp
  with assms(1) show ?thesis by (simp add: word_gt_0)
qed

lemma todo_thread:
  assumes "running_inv throws ps w" "length (jobs w) < 2 ^ 32"
  shows "todo (step throws EvThread w) \<le> todo w - 1 \<and>
         length (jobs (step throws EvThread w)) < 2 ^ 32"
proof (cases "pc w")
  case Batch
  show ?thesis
  proof (cases "jobs_cpy w")
    case Nil
    with Batch assms show ?thesis
      by (simp add: running_inv_def step_def Worker_thread_step_def todo_def)
  next
    case (Cons job rest)
    with Batch assms show ?thesis
      by (cases job) (auto simp: running_inv_def step_def Worker_thread_step_def todo_def)
  qed
next
  case Waiting
  show ?thesis
  proof (cases "jobs w = []")
    case True
    with Waiting assms show ?thesis
      by (simp add: running_inv_def step_def Worker_thread_step_def todo_def)
  next
    case False
    from assms(1) have "counter w = of_nat (length (jobs w))" by (simp add: running_inv_def)
    from counter_positive [OF this False assms(2)] have "0 < counter w" .
    with Waiting False assms show ?thesis
      by (simp add: running_inv_def step_def Worker_thread_step_def todo_def)
  qed
qed (use assms in \<open>auto simp: running_inv_def step_def Worker_thread_step_def todo_def\<close>)

lemma todo_zero:
  assumes "running_inv throws ps w" "todo w = 0"
  shows "executed w = callables ps"
proof -
  from assms have "jobs w = []" and "jobs_cpy w = []"
    by (auto simp: running_inv_def todo_def split: thread_pc.splits if_splits)
  with assms(1) show ?thesis by (simp add: running_inv_def)
qed

lemma drain:
  assumes "running_inv throws ps w" "length (jobs w) < 2 ^ 32" "todo w \<le> n"
  shows "executed (run throws (replicate n EvThread) w) = callables ps"
  using assms
proof (induction n arbitrary: w)
  case 0
  then show ?case by (simp add: todo_zero)
next
  case (Suc n)
  from Suc.prems(1) have inv: "running_inv throws ps (step throws EvThread w)"
    by (rule running_inv_thread)
  from todo_thread [OF Suc.prems(1,2)] Suc.prems(3)
  have "length (jobs (step throws EvThread w)) < 2 ^ 32" and "todo (step throws EvThread w) \<le> n"
    by auto
  from Suc.IH [OF inv this] show ?case by simp
qed

lemma todo_bound: "running_inv throws ps w \<Longrightarrow> todo w \<le> length ps + 3"
  by (auto simp: running_inv_def todo_def split: thread_pc.splits)

lemma jobs_bound: "running_inv throws ps w \<Longrightarrow> length (jobs w) \<le> length ps"
  by (simp add: running_inv_def)

lemma all_jobs_run:
  assumes "list_all push_or_thread es" "\<not> list_ex (throwing_push throws) es"
    "length (pushed es) < 2 ^ 32"
  shows "executed (run throws (es @ replicate (length (pushed es) + 3) EvThread)
           (snd (Worker_start wt Worker_init))) = callables (pushed es)"
proof -
  let ?w = "run throws es (snd (Worker_start wt Worker_init))"
  from running_inv_run [OF running_inv_start assms(1,2), of wt]
  have inv: "running_inv throws (pushed es) ?w" by simp
  from jobs_bound [OF inv] assms(3) have small: "length (jobs ?w) < 2 ^ 32" by simp
  from drain [OF inv small todo_bound [OF inv]] show ?thesis by (simp add: run_append)
qed

subsection \<open>After the last batch\<close>

text \<open>Once a job has thrown, no schedule changes anything.\<close>

lemma terminated_run: "pc w = Terminated \<Longrightarrow> run throws es w = w"
  by (induction es) (simp_all add: step_def)

lemma later_only_mono: "later_only earlier X w \<Longrightarrow> X \<subseteq> Y \<Longrightarrow> later_only earlier Y w"
  by (auto simp: later_only_def)

lemma later_only_push:
  assumes "later_only earlier X w"
  shows "later_only earlier (X \<union> set (callables [job])) (step throws (EvPush job) w)"
proof (cases "pc w = Terminated")
  case True
  with assms show ?thesis by (auto simp: later_only_def step_def)
next
  case False
  from assms have r: "reachable_inv (step throws (EvPush job) w)"
    by (simp add: later_only_def reachable_inv_step)
  from False have s: "step throws (EvPush job) w = Worker_push job w" by (simp add: step_def)
  from assms r show ?thesis unfolding s
    by (cases job)
       (auto simp: later_only_def past_last_batch_def Worker_push_def callables_append)
qed

lemma later_only_thread:
  assumes "later_only earlier X w"
  shows "later_only earlier X (step throws EvThread w)"
proof (cases "pc w = Terminated")
  case True
  with assms show ?thesis by (simp add: step_def)
next
  case False
  from assms have r: "reachable_inv (step throws EvThread w)"
    by (simp add: later_only_def reachable_inv_step)
  from assms have r0: "reachable_inv w" by (simp add: later_only_def)
  from False have s: "step throws EvThread w = Worker_thread_step throws w"
    by (simp add: step_def)
  show ?thesis
  proof (cases "pc w")
    case Batch
    show ?thesis
    proof (cases "jobs_cpy w")
      case Nil
      with Batch assms r show ?thesis unfolding s
        by (auto simp: later_only_def past_last_batch_def Worker_thread_step_def)
    next
      case (Cons job rest)
      with Batch assms r show ?thesis unfolding s
        by (cases job)
           (auto simp: later_only_def past_last_batch_def Worker_thread_step_def)
    qed
  next
    case Waiting
    with assms r r0 show ?thesis unfolding s
      by (auto simp: later_only_def past_last_batch_def Worker_thread_step_def reachable_inv_def)
  next
    case LoopHead
    with assms r r0 show ?thesis unfolding s
      by (auto simp: later_only_def past_last_batch_def Worker_thread_step_def reachable_inv_def)
  next
    case (Entry b)
    with assms r r0 show ?thesis unfolding s
      by (auto simp: later_only_def past_last_batch_def Worker_thread_step_def reachable_inv_def)
  qed (use assms r s in \<open>auto simp: later_only_def past_last_batch_def Worker_thread_step_def\<close>)
qed

lemma later_only_step:
  assumes "later_only earlier X w"
  shows "later_only earlier (X \<union> set (callables (pushed [e]))) (step throws e w)"
proof (cases e)
  case (EvPush job)
  with later_only_push [OF assms, of job throws] show ?thesis by simp
next
  case EvThread
  with later_only_thread [OF assms, of throws] show ?thesis by simp
next
  case (EvStart wt)
  from assms have r: "reachable_inv (step throws e w)"
    by (simp add: later_only_def reachable_inv_step)
  from assms have r0: "reachable_inv w" by (simp add: later_only_def)
  from EvStart assms r r0 show ?thesis
    by (auto simp: later_only_def past_last_batch_def step_def Worker_start_def
          reachable_inv_def)
next
  case EvStartReturn
  from assms have r: "reachable_inv (step throws e w)"
    by (simp add: later_only_def reachable_inv_step)
  from EvStartReturn assms r show ?thesis
    by (auto simp: later_only_def past_last_batch_def step_def Worker_start_return_def)
next
  case EvStopRequest
  from assms have r: "reachable_inv (step throws e w)"
    by (simp add: later_only_def reachable_inv_step)
  from assms have r0: "reachable_inv w" by (simp add: later_only_def)
  from EvStopRequest assms r r0 show ?thesis
    by (auto simp: later_only_def past_last_batch_def step_def Worker_stop_request_def
          reachable_inv_def)
next
  case EvStopJoin
  from assms have r: "reachable_inv (step throws e w)"
    by (simp add: later_only_def reachable_inv_step)
  from assms have r0: "reachable_inv w" by (simp add: later_only_def)
  from EvStopJoin assms r r0 show ?thesis
    by (auto simp: later_only_def past_last_batch_def step_def Worker_stop_join_def
          reachable_inv_def)
qed

lemma later_only_run:
  "later_only earlier X w \<Longrightarrow>
   later_only earlier (X \<union> set (callables (pushed es))) (run throws es w)"
proof (induction es arbitrary: X w)
  case Nil
  then show ?case by simp
next
  case (Cons e es)
  from Cons.prems have "later_only earlier (X \<union> set (callables (pushed [e]))) (step throws e w)"
    by (rule later_only_step)
  then have "later_only earlier ((X \<union> set (callables (pushed [e]))) \<union> set (callables (pushed es)))
      (run throws es (step throws e w))"
    by (rule Cons.IH)
  moreover have "pushed (e # es) = pushed [e] @ pushed es"
    using pushed_append [of "[e]" es] by simp
  ultimately show ?case by (simp add: callables_append Un_assoc)
qed

lemma no_earlier_job_after_last_batch:
  assumes "reachable_inv w" "past_last_batch w"
  shows "\<exists>xs. executed (run throws es w) = executed w @ xs \<and> set xs \<subseteq> set (callables (pushed es))"
proof -
  from assms have "later_only (executed w) {} w" by (simp add: later_only_def)
  from later_only_run [OF this, of es throws] show ?thesis by (simp add: later_only_def)
qed

lemma stop_join_resets:
  assumes "reachable_inv w" "stop_request w" "pc w = Returned"
  shows "Worker_stop_join w =
           w\<lparr>thread := False, pc := NoThread, counter := 0, jobs := [],
             stop_request := False, thread_mutex := Unlocked\<rparr>"
    and "Worker_start wt (Worker_stop_join w) =
           (False, (Worker_stop_join w)\<lparr>thread := True, pc := Entry wt,
              thread_mutex := (if wt then LockedByStart else Unlocked)\<rparr>)"
  using assms by (auto simp: Worker_stop_join_def Worker_start_def reachable_inv_def)

lemmas run_defs = step_def worker_defs Worker_init_def

lemma Worker_start_result: "fst (Worker_start wt w) = False"
  by (simp add: Worker_start_def)

text \<open>
  C5. \<open>start\<close> is documented to return true on success and false when the worker is
  already started. On a fresh worker \<open>start(false)\<close> takes the mutex, finds no thread and
  spawns one, and returns false: the only \<^verbatim>\<open>return\<close> of the function is
  \<^verbatim>\<open>return false\<close>.
\<close>

theorem Worker_start_spawns_and_returns_false:
  "Worker_start False (Worker_init :: nat Worker) =
     (False, Worker_init\<lparr>thread := True, pc := Entry False\<rparr>) \<and>
   thread (snd (Worker_start False (Worker_init :: nat Worker)))"
  by (simp add: Worker_start_def Worker_init_def)

subsection \<open>Stopping\<close>

lemma stop_while_waiting_state:
  "run never_throws sched_stop_while_waiting Worker_init =
     \<lparr>thread = True, thread_mutex = LockedByStop, counter = 1, stop_request = True,
      jobs = [Some 1], start_sync = False, pc = Waiting, jobs_cpy = [], executed = []\<rparr>"
  by (simp add: sched_stop_while_waiting_def run_defs)

text \<open>
  C3, as the spec states it: once \<open>stop()\<close> has been requested, no job queued but not yet
  running is ever executed. The thread is blocked in its wait, job 1 is pushed, and
  \<open>stop()\<close> sets the flag before the thread wakes. The wait's predicate holds (both its
  disjuncts do), the thread swaps the queue out and calls job 1: the loop tests
  \<open>stop_request\<close> only after the batch.
\<close>

theorem pending_job_runs_after_stop_request:
  "stop_request (run never_throws sched_stop_while_waiting Worker_init) \<and>
   jobs (run never_throws sched_stop_while_waiting Worker_init) = [Some 1] \<and>
   executed (run never_throws sched_stop_while_waiting Worker_init) = [] \<and>
   executed (run never_throws (sched_stop_while_waiting @ [EvThread, EvThread]) Worker_init) = [1]"
  by (simp add: run_append stop_while_waiting_state)
     (simp add: run_defs never_throws_def)

lemma stop_at_loop_test_state:
  "run never_throws sched_stop_at_loop_test Worker_init =
     \<lparr>thread = True, thread_mutex = LockedByStop, counter = 1, stop_request = True,
      jobs = [Some 1], start_sync = False, pc = Returned, jobs_cpy = [], executed = []\<rparr>"
  by (simp add: sched_stop_at_loop_test_def run_defs)

text \<open>
  C3, amended. In a state reached from a fresh worker in which stop has been requested
  and the thread is past its last batch (neither blocked in its wait nor in its inner
  loop: at the loop test, or out of the loop), no job queued before is ever called:
  whatever happens next, the jobs called from then on were all pushed later. And once the
  thread has returned, what \<open>stop()\<close> does after the join clears the thread, the counter,
  the queue and the stop flag and frees the mutex, and a \<open>start\<close> after it spawns a thread
  again.
\<close>

theorem no_earlier_job_runs_after_last_batch:
  assumes "w = run throws es0 Worker_init" "stop_request w" "pc w \<noteq> Waiting" "pc w \<noteq> Batch"
  shows "(\<exists>xs. executed (run throws es w) = executed w @ xs \<and>
               set xs \<subseteq> set (callables (pushed es))) \<and>
         (pc w = Returned \<longrightarrow>
            Worker_stop_join w =
              w\<lparr>thread := False, pc := NoThread, counter := 0, jobs := [],
                stop_request := False, thread_mutex := Unlocked\<rparr> \<and>
            Worker_start wt (Worker_stop_join w) =
              (False, (Worker_stop_join w)\<lparr>thread := True, pc := Entry wt,
                 thread_mutex := (if wt then LockedByStart else Unlocked)\<rparr>))"
proof -
  from assms(1) have r: "reachable_inv w"
    using reachable_inv_run [OF reachable_inv_init] by simp
  from assms(2-4) have p: "past_last_batch w" by (simp add: past_last_batch_def)
  from no_earlier_job_after_last_batch [OF r p] stop_join_resets [OF r assms(2)]
  show ?thesis by blast
qed

theorem no_earlier_job_runs_after_last_batch_witness:
  "stop_request (run never_throws sched_stop_at_loop_test Worker_init) \<and>
   pc (run never_throws sched_stop_at_loop_test Worker_init) = Returned \<and>
   jobs (run never_throws sched_stop_at_loop_test Worker_init) = [Some 1] \<and>
   (\<exists>xs. executed (run never_throws sched_restart
                     (run never_throws sched_stop_at_loop_test Worker_init)) =
           executed (run never_throws sched_stop_at_loop_test Worker_init) @ xs \<and>
         set xs \<subseteq> {2}) \<and>
   executed (run never_throws sched_restart
               (run never_throws sched_stop_at_loop_test Worker_init)) = [2] \<and>
   jobs (Worker_stop_join (run never_throws sched_stop_at_loop_test Worker_init)) = [] \<and>
   thread (snd (Worker_start False
                  (Worker_stop_join (run never_throws sched_stop_at_loop_test Worker_init))))"
proof -
  let ?w = "run never_throws sched_stop_at_loop_test Worker_init"
  have h: "stop_request ?w" "pc ?w \<noteq> Waiting" "pc ?w \<noteq> Batch" "pc ?w = Returned"
    "jobs ?w = [Some 1]"
    by (simp_all add: stop_at_loop_test_state)
  have later: "set (callables (pushed sched_restart)) = {2}"
    by (simp add: sched_restart_def)
  note t = no_earlier_job_runs_after_last_batch [OF refl h(1-3), of sched_restart False]
  from t later
  have a: "\<exists>xs. executed (run never_throws sched_restart ?w) = executed ?w @ xs \<and> set xs \<subseteq> {2}"
    by simp
  have b: "executed (run never_throws sched_restart ?w) = [2]"
    unfolding stop_at_loop_test_state
    by (simp add: sched_restart_def run_defs never_throws_def)
  from t h(4)
  have st: "Worker_start False (Worker_stop_join ?w) =
      (False, (Worker_stop_join ?w)\<lparr>thread := True, pc := Entry False,
         thread_mutex := (if False then LockedByStart else Unlocked)\<rparr>)"
    by blast
  from t h(4)
  have sj: "Worker_stop_join ?w =
      ?w\<lparr>thread := False, pc := NoThread, counter := 0, jobs := [],
         stop_request := False, thread_mutex := Unlocked\<rparr>"
    by blast
  from sj have c: "jobs (Worker_stop_join ?w) = []" by simp
  from st have d: "thread (snd (Worker_start False (Worker_stop_join ?w)))" by simp
  from h a b c d show ?thesis by blast
qed

subsection \<open>Order of execution\<close>

text \<open>
  C9, as the spec states it: the failure of one job does not prevent the later jobs from
  running. The thread's lambda calls \<^verbatim>\<open>job()\<close> with no handler around it, so an
  exception thrown by a job leaves the thread function and \<^verbatim>\<open>std::terminate\<close> ends
  the process. Jobs 1 and 2 are pushed and job 1 throws: job 2 is never called.
\<close>

theorem throwing_job_stops_later_jobs:
  "callables (pushed sched_throwing) = [1, 2] \<and>
   job1_throws 1 \<and>
   executed (run job1_throws sched_throwing Worker_init) = [1] \<and>
   pc (run job1_throws sched_throwing Worker_init) = Terminated"
  by (simp add: sched_throwing_def run_defs job1_throws_def)

text \<open>
  C9, amended. In every schedule the jobs called are, in the order of their calls, a
  subsequence of the callable jobs pushed, in the order of the pushes: no job is called
  twice or out of order. And when fewer than \<open>2^32\<close> jobs are pushed onto a started worker
  that nobody stops, none of them throwing, however the pushes interleave with the
  thread's steps, the thread has called exactly the callable ones, in push order, after
  at most as many further steps as jobs were pushed plus three (empty functions are
  skipped).
\<close>

theorem jobs_run_in_fifo_order:
  "subseq (executed (run throws sched Worker_init)) (callables (pushed sched)) \<and>
   (list_all push_or_thread es \<and> \<not> list_ex (throwing_push throws) es \<and>
    length (pushed es) < 2 ^ 32 \<longrightarrow>
      executed (run throws (EvStart wt # es @ replicate (length (pushed es) + 3) EvThread)
                  Worker_init)
        = callables (pushed es))"
proof -
  have "step throws (EvStart wt) Worker_init = snd (Worker_start wt Worker_init)"
    by (simp add: step_def Worker_init_def)
  then show ?thesis
    using executed_subseq_pushed [of throws sched] all_jobs_run [of es throws wt]
    by simp
qed

theorem jobs_run_in_fifo_order_witness:
  "list_all push_or_thread sched_three_jobs \<and>
   \<not> list_ex (throwing_push never_throws) sched_three_jobs \<and>
   length (pushed sched_three_jobs) < 2 ^ 32 \<and>
   pushed sched_three_jobs = [Some 1, None, Some 2, Some 3] \<and>
   executed (run never_throws
              (EvStart True # sched_three_jobs @
                 replicate (length (pushed sched_three_jobs) + 3) EvThread) Worker_init)
     = [1, 2, 3] \<and>
   subseq (executed (run job1_throws sched_throwing Worker_init))
     (callables (pushed sched_throwing))"
proof -
  have h: "list_all push_or_thread sched_three_jobs"
    "\<not> list_ex (throwing_push never_throws) sched_three_jobs"
    "length (pushed sched_three_jobs) < 2 ^ 32"
    by (simp_all add: sched_three_jobs_def never_throws_def)
  have p: "pushed sched_three_jobs = [Some 1, None, Some 2, Some 3]"
    by (simp add: sched_three_jobs_def)
  note t = jobs_run_in_fifo_order [of job1_throws sched_throwing sched_three_jobs]
  note u = jobs_run_in_fifo_order [of never_throws "[]" sched_three_jobs True]
  from u h have "executed (run never_throws
              (EvStart True # sched_three_jobs @
                 replicate (length (pushed sched_three_jobs) + 3) EvThread) Worker_init)
     = callables (pushed sched_three_jobs)"
    by blast
  then have e: "executed (run never_throws
              (EvStart True # sched_three_jobs @
                 replicate (length (pushed sched_three_jobs) + 3) EvThread) Worker_init)
     = [1, 2, 3]"
    by (simp only: p callables.simps)
  from t have s: "subseq (executed (run job1_throws sched_throwing Worker_init))
     (callables (pushed sched_throwing))"
    by blast
  from h p e s show ?thesis by blast
qed

end
